theory Spec2Isabelle
  imports Main "HOL-Library.AList"
begin

section \<open>Constructors, providers and the reflection metadata store\<close>

text \<open>
  A \<open>Constructor\<close> is a class object: \<open>ref\<close> stands for the object's identity, so that two
  different classes can have the same name; \<open>name\<close> is the class's \<^verbatim>\<open>name\<close> property and
  \<open>super\<close> the class it extends, if any.
\<close>

datatype Constructor =
  Constructor (ref: nat) (name: string) (super: "Constructor option")

text \<open>\<^verbatim>\<open>Registry.Provider = { impl: Constructor; deps: Constructor[] }\<close>\<close>

record Provider =
  impl :: Constructor
  deps :: "Constructor list"

text \<open>
  The registry object: its only field is the \<^verbatim>\<open>providers\<close> map, a JavaScript \<^verbatim>\<open>Map\<close> from
  strings to providers. A \<^verbatim>\<open>Map\<close> keeps its entries in insertion order, so it is an
  association list with unique keys: \<^verbatim>\<open>get\<close> is \<open>map_of\<close>, \<^verbatim>\<open>has\<close> asks whether \<open>map_of\<close> is
  defined, and \<^verbatim>\<open>set\<close> is \<open>AList.update\<close> (overwrite in place, or append a new key).
\<close>

record Registry =
  providers :: "(string \<times> Provider) list"

text \<open>Every \<^verbatim>\<open>throw new Error(message)\<close> of the source is a value \<open>Error message\<close>.\<close>

datatype error = Error (message: string)

definition already_registered :: "string \<Rightarrow> string" where
  "already_registered token =
     CHR 0x22 # token @ CHR 0x22 # '' is already registered in the registry.''"

definition not_registered :: "string \<Rightarrow> string" where
  "not_registered token = CHR 0x22 # token @ CHR 0x22 # '' is not registered.''"

text \<open>
  The metadata store of the \<^verbatim>\<open>reflect-metadata\<close> library, which the source reaches through
  \<^verbatim>\<open>Reflect.defineMetadata\<close> and \<^verbatim>\<open>Reflect.getMetadata\<close>: metadata key, then target, to value.
  The library is not part of the repository; the two functions are modelled as the library
  documents them. \<^verbatim>\<open>defineMetadata(key, value, target)\<close> writes the target's own entry.
  \<^verbatim>\<open>getMetadata(key, target)\<close> reads the metadata "on the target object or its prototype
  chain" (the library's \<^verbatim>\<open>getOwnMetadata\<close>, which the source does not call, is the one that
  reads the own entry only): it returns the target's own entry and, when there is none, goes
  on with the target's prototype, which for a class object is the class it extends. \<open>None\<close> is
  \<^verbatim>\<open>undefined\<close>. The store is typed by what its values are: the repository keeps
  \<^verbatim>\<open>Constructor[]\<close> under \<^verbatim>\<open>design:paramtypes\<close> and a schema under \<^verbatim>\<open>custom:schema\<close>.
\<close>

type_synonym 'v metadata = "string \<Rightarrow> Constructor \<Rightarrow> 'v option"

definition no_metadata :: "'v metadata" where
  "no_metadata = (\<lambda>key target. None)"

definition defineMetadata :: "string \<Rightarrow> 'v \<Rightarrow> Constructor \<Rightarrow> 'v metadata \<Rightarrow> 'v metadata" where
  "defineMetadata key v target store = store(key := (store key)(target \<mapsto> v))"

fun getMetadata :: "string \<Rightarrow> Constructor \<Rightarrow> 'v metadata \<Rightarrow> 'v option" where
  "getMetadata key (Constructor r n s) store =
     (case store key (Constructor r n s) of
        Some v \<Rightarrow> Some v
      | None \<Rightarrow> (case s of None \<Rightarrow> None | Some parent \<Rightarrow> getMetadata key parent store))"

section \<open>Registry.register\<close>

text \<open>
  \<^verbatim>\<open>register(impl)\<close>: the result is the outcome (\<open>Inl\<close> the thrown error) together with the
  registry after the call. The store holds the \<^verbatim>\<open>design:paramtypes\<close> metadata.
\<close>

definition register ::
  "Constructor list metadata \<Rightarrow> Constructor \<Rightarrow> Registry \<Rightarrow> (error + unit) \<times> Registry" where
  "register store impl' r =
     (let token = name impl' in
      if map_of (providers r) token \<noteq> None
      then (Inl (Error (already_registered token)), r)
      else
        let deps' = (case getMetadata ''design:paramtypes'' impl' store of
                       None \<Rightarrow> [] | Some ds \<Rightarrow> ds)
        in (Inr (),
            r\<lparr>providers := AList.update token \<lparr>impl = impl', deps = deps'\<rparr> (providers r)\<rparr>))"

section \<open>Registry.resolve\<close>

text \<open>
  \<^verbatim>\<open>new provider.impl(...deps)\<close> allocates a fresh object that records the class it was built
  by and the argument objects it was given. The heap is the list of all objects allocated so
  far, in allocation order; an object's address is its position in that list. The bodies of
  the registered classes are not the registry's code: a constructor call is allocation only,
  it does not throw and does not call back into the registry.
\<close>

type_synonym address = nat

record Instance =
  "constructor" :: Constructor
  arguments :: "address list"

type_synonym heap = "Instance list"

text \<open>
  \<^verbatim>\<open>resolve\<close> calls itself once for every element of \<^verbatim>\<open>provider.deps\<close>, from left to right
  (\<^verbatim>\<open>Array.prototype.map\<close>), and a throw inside the callback abandons the rest. The first
  argument bounds the depth of nested \<^verbatim>\<open>resolve\<close> calls: \<open>None\<close> says that the call did not
  return within that depth. A returned result carries the registry and the heap after the
  call.
\<close>

fun resolve ::
    "nat \<Rightarrow> Registry \<Rightarrow> Constructor \<Rightarrow> heap \<Rightarrow> ((error + address) \<times> Registry \<times> heap) option"
  and resolve_deps ::
    "nat \<Rightarrow> Registry \<Rightarrow> Constructor list \<Rightarrow> heap
       \<Rightarrow> ((error + address list) \<times> Registry \<times> heap) option"
where
  "resolve 0 r impl' h = None"
| "resolve (Suc n) r impl' h =
     (let token = name impl' in
      case map_of (providers r) token of
        None \<Rightarrow> Some (Inl (Error (not_registered token)), r, h)
      | Some provider \<Rightarrow>
          (case resolve_deps n r (deps provider) h of
             None \<Rightarrow> None
           | Some (Inl e, r', h') \<Rightarrow> Some (Inl e, r', h')
           | Some (Inr ds, r', h') \<Rightarrow>
               Some (Inr (length h'), r',
                     h' @ [\<lparr>constructor = impl provider, arguments = ds\<rparr>])))"
| "resolve_deps n r [] h = Some (Inr [], r, h)"
| "resolve_deps n r (dep # rest) h =
     (case resolve n r dep h of
        None \<Rightarrow> None
      | Some (Inl e, r', h') \<Rightarrow> Some (Inl e, r', h')
      | Some (Inr a, r', h') \<Rightarrow>
          (case resolve_deps n r' rest h' of
             None \<Rightarrow> None
           | Some (Inl e, r'', h'') \<Rightarrow> Some (Inl e, r'', h'')
           | Some (Inr as, r'', h'') \<Rightarrow> Some (Inr (a # as), r'', h'')))"

section \<open>Schema and getSchema\<close>

definition SCHEMA_METADATA_KEY :: string where
  "SCHEMA_METADATA_KEY = ''custom:schema''"

text \<open>\<^verbatim>\<open>Schema(schema)\<close> is the class decorator \<^verbatim>\<open>(target) => Reflect.defineMetadata(...)\<close>.\<close>

definition Schema :: "'z \<Rightarrow> Constructor \<Rightarrow> 'z metadata \<Rightarrow> 'z metadata" where
  "Schema schema target store = defineMetadata SCHEMA_METADATA_KEY schema target store"

text \<open>\<^verbatim>\<open>getSchema(target)\<close> reads the metadata of \<^verbatim>\<open>target.constructor\<close>.\<close>

definition getSchema :: "Instance \<Rightarrow> 'z metadata \<Rightarrow> 'z option" where
  "getSchema target store = getMetadata SCHEMA_METADATA_KEY (constructor target) store"

text \<open>
  The call \<^verbatim>\<open>getSchema(target)\<close> with the store written out: the value it returns and the store
  after the call. The body of \<^verbatim>\<open>getSchema\<close> is the one expression \<^verbatim>\<open>Reflect.getMetadata(...)\<close>,
  a read; nothing in it writes to the store.
\<close>

definition lookup :: "Instance \<Rightarrow> 'z metadata \<Rightarrow> 'z option \<times> 'z metadata" where
  "lookup target store = (getSchema target store, store)"

section \<open>The dependency graph of a component table\<close>

text \<open>
  \<open>wired_within n ps token\<close>: \<open>token\<close> has an entry, every dependency of that entry is wired
  within \<open>n - 1\<close>, and so on: the dependency graph below \<open>token\<close> is fully registered and every
  dependency chain that starts at \<open>token\<close> has at most \<open>n\<close> identities on it. A graph with a
  cycle is wired within no \<open>n\<close>.
\<close>

fun wired_within :: "nat \<Rightarrow> (string \<times> Provider) list \<Rightarrow> string \<Rightarrow> bool" where
  "wired_within 0 ps token = False"
| "wired_within (Suc n) ps token =
     (case map_of ps token of
        None \<Rightarrow> False
      | Some p \<Rightarrow> list_all (\<lambda>d. wired_within n ps (name d)) (deps p))"

text \<open>
  The dependency graph below an identity, unfolded into a tree: the registered constructor of
  the identity, and below it the trees of its declared dependencies in declaration order.
\<close>

datatype wiring = Wiring Constructor "wiring list"

fun dependency_tree :: "nat \<Rightarrow> (string \<times> Provider) list \<Rightarrow> string \<Rightarrow> wiring option" where
  "dependency_tree 0 ps token = None"
| "dependency_tree (Suc n) ps token =
     (case map_of ps token of
        None \<Rightarrow> None
      | Some p \<Rightarrow>
          map_option (Wiring (impl p))
            (those (map (\<lambda>d. dependency_tree n ps (name d)) (deps p))))"

text \<open>
  Depth-first order, children from left to right and each node after all of its children.
\<close>

fun postorder :: "wiring \<Rightarrow> Constructor list" where
  "postorder (Wiring c ws) = concat (map postorder ws) @ [c]"

text \<open>
  The object at address \<open>a\<close> was built by the constructor at the root of the tree, and its
  arguments are, position by position, objects that stand for the subtrees.
\<close>

fun represents :: "heap \<Rightarrow> address \<Rightarrow> wiring \<Rightarrow> bool"
  and represents_all :: "heap \<Rightarrow> address list \<Rightarrow> wiring list \<Rightarrow> bool"
where
  "represents h a (Wiring c ws) =
     (a < length h \<and> constructor (h ! a) = c \<and> represents_all h (arguments (h ! a)) ws)"
| "represents_all h [] [] = True"
| "represents_all h (a # as) (w # ws) = (represents h a w \<and> represents_all h as ws)"
| "represents_all h [] (w # ws) = False"
| "represents_all h (a # as) [] = False"

text \<open>
  The objects \<open>ext\<close> were allocated from address \<open>base\<close> on. No object is handed to two
  constructor calls, and every argument is one of the objects of \<open>ext\<close>.
\<close>

definition no_reuse :: "nat \<Rightarrow> Instance list \<Rightarrow> bool" where
  "no_reuse base ext =
     (distinct (concat (map arguments ext)) \<and>
      list_all (\<lambda>x. base \<le> x \<and> x < base + length ext) (concat (map arguments ext)))"

text \<open>
  A walk along dependency edges: every identity on it but the last has an entry, and the next
  identity is the name of one of that entry's dependencies.
\<close>

fun dependency_walk :: "(string \<times> Provider) list \<Rightarrow> string list \<Rightarrow> bool" where
  "dependency_walk ps [] = True"
| "dependency_walk ps [t] = True"
| "dependency_walk ps (t # u # rest) =
     (case map_of ps t of
        None \<Rightarrow> False
      | Some p \<Rightarrow> u \<in> set (map name (deps p)) \<and> dependency_walk ps (u # rest))"

text \<open>Every dependency that an entry of the table names has an entry itself.\<close>

definition closed :: "(string \<times> Provider) list \<Rightarrow> bool" where
  "closed ps =
     list_all (\<lambda>(token, p). list_all (\<lambda>d. map_of ps (name d) \<noteq> None) (deps p)) ps"

text \<open>
  \<open>encounters d ps token path missing\<close>: starting at \<open>token\<close> and taking at each entry the
  dependency at the position the path gives, the walk ends at the identity \<open>missing\<close>, which
  has no entry; the dependencies declared before the one taken are wired within \<open>d\<close>, so
  resolution gets past them.
\<close>

fun encounters :: "nat \<Rightarrow> (string \<times> Provider) list \<Rightarrow> string \<Rightarrow> nat list \<Rightarrow> string \<Rightarrow> bool" where
  "encounters d ps token [] missing = (token = missing \<and> map_of ps token = None)"
| "encounters d ps token (i # path) missing =
     (case map_of ps token of
        None \<Rightarrow> False
      | Some p \<Rightarrow>
          i < length (deps p) \<and>
          list_all (\<lambda>x. wired_within d ps (name x)) (take i (deps p)) \<and>
          encounters d ps (name (deps p ! i)) path missing)"

text \<open>The classes on the prototype chain of a class object, the class itself first.\<close>

fun prototype_chain :: "Constructor \<Rightarrow> Constructor list" where
  "prototype_chain (Constructor r n s) =
     Constructor r n s # (case s of None \<Rightarrow> [] | Some parent \<Rightarrow> prototype_chain parent)"

text \<open>A sequence of \<^verbatim>\<open>@Schema(schema)\<close> decorations, applied from left to right.\<close>

fun decorate :: "(Constructor \<times> 'z) list \<Rightarrow> 'z metadata \<Rightarrow> 'z metadata" where
  "decorate [] store = store"
| "decorate ((target, schema) # rest) store = decorate rest (Schema schema target store)"

section \<open>Example classes and registries\<close>

text \<open>Four classes without a superclass.\<close>

definition class_C :: Constructor where "class_C = Constructor 1 ''C'' None"
definition class_A :: Constructor where "class_A = Constructor 2 ''A'' None"
definition class_B :: Constructor where "class_B = Constructor 3 ''B'' None"
definition class_Root :: Constructor where "class_Root = Constructor 4 ''Root'' None"

definition class_Missing :: Constructor where "class_Missing = Constructor 6 ''Missing'' None"
definition class_Parent :: Constructor where "class_Parent = Constructor 7 ''Parent'' None"
definition class_Child :: Constructor where
  "class_Child = Constructor 8 ''Child'' (Some class_Parent)"

definition empty_registry :: Registry where
  "empty_registry = \<lparr>providers = []\<rparr>"

text \<open>\<^verbatim>\<open>Root(A, B)\<close>, \<^verbatim>\<open>A(C)\<close>, \<^verbatim>\<open>B()\<close>, \<^verbatim>\<open>C()\<close>: the constructor parameter types, and the registry
  after the four classes have been registered.\<close>

definition paramtypes :: "Constructor list metadata" where
  "paramtypes =
     defineMetadata ''design:paramtypes'' [class_A, class_B] class_Root
       (defineMetadata ''design:paramtypes'' [class_C] class_A no_metadata)"

definition wired_registry :: Registry where
  "wired_registry =
     \<lparr>providers =
        [(''C'', \<lparr>impl = class_C, deps = []\<rparr>),
         (''A'', \<lparr>impl = class_A, deps = [class_C]\<rparr>),
         (''B'', \<lparr>impl = class_B, deps = []\<rparr>),
         (''Root'', \<lparr>impl = class_Root, deps = [class_A, class_B]\<rparr>)]\<rparr>"

text \<open>\<^verbatim>\<open>Root(A, B)\<close>, \<^verbatim>\<open>A(C)\<close>, \<^verbatim>\<open>B(C)\<close>, \<^verbatim>\<open>C()\<close>: the class \<^verbatim>\<open>C\<close> is on two branches.\<close>

definition shared_registry :: Registry where
  "shared_registry =
     \<lparr>providers =
        [(''C'', \<lparr>impl = class_C, deps = []\<rparr>),
         (''A'', \<lparr>impl = class_A, deps = [class_C]\<rparr>),
         (''B'', \<lparr>impl = class_B, deps = [class_C]\<rparr>),
         (''Root'', \<lparr>impl = class_Root, deps = [class_A, class_B]\<rparr>)]\<rparr>"

text \<open>\<^verbatim>\<open>Root(C, A)\<close>, \<^verbatim>\<open>A(B)\<close>, \<^verbatim>\<open>B(Missing)\<close>, \<^verbatim>\<open>C()\<close>, and \<^verbatim>\<open>Missing\<close> was never registered.\<close>

definition broken_registry :: Registry where
  "broken_registry =
     \<lparr>providers =
        [(''C'', \<lparr>impl = class_C, deps = []\<rparr>),
         (''B'', \<lparr>impl = class_B, deps = [class_Missing]\<rparr>),
         (''A'', \<lparr>impl = class_A, deps = [class_B]\<rparr>),
         (''Root'', \<lparr>impl = class_Root, deps = [class_C, class_A]\<rparr>)]\<rparr>"


text \<open>\<^verbatim>\<open>A(B)\<close> and \<^verbatim>\<open>B(A)\<close>, both registered.\<close>

definition cyclic_registry :: Registry where
  "cyclic_registry =
     \<lparr>providers =
        [(''A'', \<lparr>impl = class_A, deps = [class_B]\<rparr>),
         (''B'', \<lparr>impl = class_B, deps = [class_A]\<rparr>)]\<rparr>"

section \<open>Properties of resolve\<close>

lemma resolve_frame:
  "resolve n r c h = Some (res, r', h') \<Longrightarrow> r' = r \<and> (\<exists>ext. h' = h @ ext)"
  "resolve_deps n r cs h = Some (res2, r'', h'') \<Longrightarrow> r'' = r \<and> (\<exists>ext. h'' = h @ ext)"
proof (induction n r c h and n r cs h arbitrary: res r' h' and res2 r'' h''
    rule: resolve_resolve_deps.induct)
  case (1 r impl' h)
  then show ?case by simp
next
  case (2 n r impl' h)
  then show ?case
    by (fastforce simp: Let_def split: option.splits sum.splits prod.splits)
next
  case (3 n r h)
  then show ?case by simp
next
  case (4 n r dep rest h)
  then show ?case
    by (fastforce split: option.splits sum.splits prod.splits)
qed

lemma resolve_Suc:
  "resolve n r c h = Some x \<Longrightarrow> resolve (Suc n) r c h = Some x"
  "resolve_deps n r cs h = Some y \<Longrightarrow> resolve_deps (Suc n) r cs h = Some y"
proof (induction n r c h and n r cs h arbitrary: x and y
    rule: resolve_resolve_deps.induct)
  case (1 r impl' h)
  then show ?case by simp
next
  case (2 n r impl' h)
  show ?case
  proof (cases "map_of (providers r) (name impl')")
    case None
    with "2.prems" show ?thesis by simp
  next
    case (Some p)
    with "2.prems" obtain y where y: "resolve_deps n r (deps p) h = Some y"
      by (auto split: option.splits)
    from "2.IH" [OF refl Some y] have "resolve_deps (Suc n) r (deps p) h = Some y" .
    with "2.prems" Some y show ?thesis by simp
  qed
next
  case (3 n r h)
  then show ?case by simp
next
  case (4 n r dep rest h)
  from "4.prems" obtain res r1 h1 where x: "resolve n r dep h = Some (res, r1, h1)"
    by (auto split: option.splits)
  from "4.IH"(1) [OF x] have x': "resolve (Suc n) r dep h = Some (res, r1, h1)" .
  show ?case
  proof (cases res)
    case (Inl e)
    with "4.prems" x x' show ?thesis by simp
  next
    case (Inr a)
    with "4.prems" x obtain z where z: "resolve_deps n r1 rest h1 = Some z"
      by (auto split: option.splits)
    from "4.IH"(2) [OF x [unfolded Inr] refl refl refl z]
    have "resolve_deps (Suc n) r1 rest h1 = Some z" .
    with "4.prems" x x' z Inr show ?thesis by simp
  qed
qed

lemma resolve_add:
  "resolve n r c h = Some x \<Longrightarrow> resolve (n + k) r c h = Some x"
  by (induction k) (simp_all add: resolve_Suc del: resolve.simps resolve_deps.simps)

lemma resolve_deps_add:
  "resolve_deps n r cs h = Some y \<Longrightarrow> resolve_deps (n + k) r cs h = Some y"
  by (induction k) (simp_all add: resolve_Suc del: resolve.simps resolve_deps.simps)

lemma resolve_fuel:
  "n \<le> m \<Longrightarrow> resolve n r c h = Some x \<Longrightarrow> resolve m r c h = Some x"
  using resolve_add [of n r c h x "m - n"] by simp

lemma resolve_deps_fuel:
  "n \<le> m \<Longrightarrow> resolve_deps n r cs h = Some y \<Longrightarrow> resolve_deps m r cs h = Some y"
  using resolve_deps_add [of n r cs h y "m - n"] by simp


lemma represents_append:
  "represents h a w \<Longrightarrow> represents (h @ e) a w"
  "represents_all h as ws \<Longrightarrow> represents_all (h @ e) as ws"
  by (induction h a w and h as ws rule: represents_represents_all.induct)
     (simp_all add: nth_append)

lemma those_map_Some:
  "(\<exists>ws. those (map f xs) = Some ws) \<longleftrightarrow> (\<forall>x\<in>set xs. f x \<noteq> None)"
  by (induction xs) (auto split: option.splits)

lemma those_map_mono:
  "those (map f xs) = Some ws \<Longrightarrow> (\<And>x w. x \<in> set xs \<Longrightarrow> f x = Some w \<Longrightarrow> g x = Some w)
     \<Longrightarrow> those (map g xs) = Some ws"
  by (induction xs arbitrary: ws) (auto split: option.splits)

lemma wired_within_tree:
  "wired_within n ps t \<longleftrightarrow> (\<exists>w. dependency_tree n ps t = Some w)"
proof (induction n arbitrary: t)
  case 0
  show ?case by simp
next
  case (Suc n)
  show ?case
  proof (cases "map_of ps t")
    case None
    then show ?thesis by simp
  next
    case (Some p)
    have "list_all (\<lambda>d. wired_within n ps (name d)) (deps p) \<longleftrightarrow>
          (\<forall>d\<in>set (deps p). dependency_tree n ps (name d) \<noteq> None)"
      using Suc.IH by (auto simp: list_all_iff)
    also have "\<dots> \<longleftrightarrow> (\<exists>ws. those (map (\<lambda>d. dependency_tree n ps (name d)) (deps p)) = Some ws)"
      by (rule those_map_Some [symmetric])
    finally show ?thesis using Some by auto
  qed
qed

lemma dependency_tree_Suc:
  "dependency_tree n ps t = Some w \<Longrightarrow> dependency_tree (Suc n) ps t = Some w"
proof (induction n arbitrary: t w)
  case 0
  then show ?case by simp
next
  case (Suc n)
  from Suc.prems obtain p ws where p: "map_of ps t = Some p"
    and ws: "those (map (\<lambda>d. dependency_tree n ps (name d)) (deps p)) = Some ws"
    and w: "w = Wiring (impl p) ws"
    by (auto split: option.splits)
  have "those (map (\<lambda>d. dependency_tree (Suc n) ps (name d)) (deps p)) = Some ws"
    using ws by (rule those_map_mono) (rule Suc.IH)
  with p w show ?case by (simp del: dependency_tree.simps add: dependency_tree.simps(2) [of "Suc n"])
qed

lemma dependency_tree_add:
  "dependency_tree n ps t = Some w \<Longrightarrow> dependency_tree (n + k) ps t = Some w"
  by (induction k) (simp_all add: dependency_tree_Suc del: dependency_tree.simps)

lemma dependency_tree_unique:
  assumes "dependency_tree n ps t = Some w" and "dependency_tree m ps t = Some w'"
  shows "w = w'"
proof -
  have "dependency_tree (n + m) ps t = Some w"
    using assms(1) by (rule dependency_tree_add)
  moreover have "dependency_tree (m + n) ps t = Some w'"
    using assms(2) by (rule dependency_tree_add)
  ultimately show ?thesis by (simp add: add.commute)
qed

lemma resolve_builds:
  "dependency_tree n (providers r) (name c) = Some w \<Longrightarrow>
     \<exists>ext. resolve n r c h = Some (Inr (length h + length ext - 1), r, h @ ext) \<and>
       ext \<noteq> [] \<and> map constructor ext = postorder w \<and>
       represents (h @ ext) (length h + length ext - 1) w"
  "those (map (\<lambda>d. dependency_tree n (providers r) (name d)) cs) = Some ws \<Longrightarrow>
     \<exists>as ext. resolve_deps n r cs h = Some (Inr as, r, h @ ext) \<and>
       map constructor ext = concat (map postorder ws) \<and>
       represents_all (h @ ext) as ws"
proof (induction n r c h and n r cs h arbitrary: w and ws
    rule: resolve_resolve_deps.induct)
  case (1 r impl' h)
  then show ?case by simp
next
  case (2 n r impl' h)
  from "2.prems" obtain p ws where p: "map_of (providers r) (name impl') = Some p"
    and ws: "those (map (\<lambda>d. dependency_tree n (providers r) (name d)) (deps p)) = Some ws"
    and w: "w = Wiring (impl p) ws"
    by (auto split: option.splits)
  from "2.IH" [OF refl p ws] obtain as ext
    where run: "resolve_deps n r (deps p) h = Some (Inr as, r, h @ ext)"
      and order: "map constructor ext = concat (map postorder ws)"
      and args: "represents_all (h @ ext) as ws"
    by blast
  let ?obj = "\<lparr>constructor = impl p, arguments = as\<rparr>"
  have "resolve (Suc n) r impl' h = Some (Inr (length h + length ext), r, h @ ext @ [?obj])"
    using p run by simp
  moreover have "map constructor (ext @ [?obj]) = postorder w"
    using order w by simp
  moreover have "represents (h @ ext @ [?obj]) (length h + length ext) w"
    using represents_append(2) [OF args, of "[?obj]"] w
    by (simp add: nth_append)
  ultimately show ?case
    by (intro exI [of _ "ext @ [?obj]"]) simp
next
  case (3 n r h)
  then show ?case by simp
next
  case (4 n r dep rest h)
  from "4.prems" obtain w1 ws' where w1: "dependency_tree n (providers r) (name dep) = Some w1"
    and ws': "those (map (\<lambda>d. dependency_tree n (providers r) (name d)) rest) = Some ws'"
    and ws: "ws = w1 # ws'"
    by (auto split: option.splits)
  from "4.IH"(1) [OF w1] obtain e1
    where run1: "resolve n r dep h = Some (Inr (length h + length e1 - 1), r, h @ e1)"
      and ne: "e1 \<noteq> []"
      and order1: "map constructor e1 = postorder w1"
      and rep1: "represents (h @ e1) (length h + length e1 - 1) w1"
    by blast
  from "4.IH"(2) [OF run1 refl refl refl ws'] obtain as e2
    where run2: "resolve_deps n r rest (h @ e1) = Some (Inr as, r, (h @ e1) @ e2)"
      and order2: "map constructor e2 = concat (map postorder ws')"
      and rep2: "represents_all ((h @ e1) @ e2) as ws'"
    by blast
  have "resolve_deps n r (dep # rest) h =
          Some (Inr ((length h + length e1 - 1) # as), r, h @ (e1 @ e2))"
    using run1 run2 by simp
  moreover have "map constructor (e1 @ e2) = concat (map postorder ws)"
    using order1 order2 ws by simp
  moreover have "represents_all (h @ (e1 @ e2)) ((length h + length e1 - 1) # as) ws"
    using represents_append(1) [OF rep1, of e2] rep2 ws by simp
  ultimately show ?case by blast
qed

lemma resolve_success_tree:
  "resolve n r c h = Some (Inr a, r', h') \<Longrightarrow>
     \<exists>w. dependency_tree n (providers r) (name c) = Some w"
  "resolve_deps n r cs h = Some (Inr as, r'', h'') \<Longrightarrow>
     \<exists>ws. those (map (\<lambda>d. dependency_tree n (providers r) (name d)) cs) = Some ws"
proof (induction n r c h and n r cs h arbitrary: a r' h' and as r'' h''
    rule: resolve_resolve_deps.induct)
  case (1 r impl' h)
  then show ?case by simp
next
  case (2 n r impl' h)
  from "2.prems" obtain p ds r1 h1 where p: "map_of (providers r) (name impl') = Some p"
    and run: "resolve_deps n r (deps p) h = Some (Inr ds, r1, h1)"
    by (auto simp: Let_def split: option.splits sum.splits prod.splits)
  from "2.IH" [OF refl p run] p show ?case by auto
next
  case (3 n r h)
  then show ?case by simp
next
  case (4 n r dep rest h)
  from "4.prems" obtain a1 r1 h1 as' r2 h2
    where run1: "resolve n r dep h = Some (Inr a1, r1, h1)"
      and run2: "resolve_deps n r1 rest h1 = Some (Inr as', r2, h2)"
    by (auto split: option.splits sum.splits)
  from resolve_frame(1) [OF run1] have r1: "r1 = r" by simp
  from "4.IH"(1) [OF run1] obtain w1
    where "dependency_tree n (providers r) (name dep) = Some w1" by blast
  moreover from "4.IH"(2) [OF run1 refl refl refl run2] r1 obtain ws'
    where "those (map (\<lambda>d. dependency_tree n (providers r) (name d)) rest) = Some ws'"
    by blast
  ultimately show ?case by simp
qed


lemma resolve_fresh:
  "resolve n r c h = Some (Inr a, r', h') \<Longrightarrow>
     \<exists>ext. h' = h @ ext \<and> ext \<noteq> [] \<and> a = length h + length ext - 1 \<and>
       distinct (concat (map arguments ext)) \<and>
       (\<forall>x\<in>set (concat (map arguments ext)). length h \<le> x \<and> x < a)"
  "resolve_deps n r cs h = Some (Inr as, r'', h'') \<Longrightarrow>
     \<exists>ext. h'' = h @ ext \<and>
       distinct (concat (map arguments ext)) \<and>
       (\<forall>x\<in>set (concat (map arguments ext)). length h \<le> x \<and> x < length h + length ext) \<and>
       distinct as \<and>
       (\<forall>x\<in>set as. length h \<le> x \<and> x < length h + length ext) \<and>
       set as \<inter> set (concat (map arguments ext)) = {}"
proof (induction n r c h and n r cs h arbitrary: a r' h' and as r'' h''
    rule: resolve_resolve_deps.induct)
  case (1 r impl' h)
  then show ?case by simp
next
  case (2 n r impl' h)
  from "2.prems" obtain p ds h1 where p: "map_of (providers r) (name impl') = Some p"
    and run: "resolve_deps n r (deps p) h = Some (Inr ds, r', h1)"
    and a: "a = length h1"
    and h': "h' = h1 @ [\<lparr>constructor = impl p, arguments = ds\<rparr>]"
    by (auto simp: Let_def split: option.splits sum.splits prod.splits)
  from "2.IH" [OF refl p run] obtain ext where ext: "h1 = h @ ext"
    "distinct (concat (map arguments ext))"
    "\<forall>x\<in>set (concat (map arguments ext)). length h \<le> x \<and> x < length h + length ext"
    "distinct ds" "\<forall>x\<in>set ds. length h \<le> x \<and> x < length h + length ext"
    "set ds \<inter> set (concat (map arguments ext)) = {}"
    by blast
  let ?ext = "ext @ [\<lparr>constructor = impl p, arguments = ds\<rparr>]"
  have "h' = h @ ?ext" using h' ext(1) by simp
  moreover have "a = length h + length ?ext - 1" using a ext(1) by simp
  moreover have "distinct (concat (map arguments ?ext))"
    using ext(2,4,6) by auto
  moreover have "\<forall>x\<in>set (concat (map arguments ?ext)). length h \<le> x \<and> x < a"
    using ext(1,3,5) a by auto
  ultimately show ?case by blast
next
  case (3 n r h)
  then show ?case by simp
next
  case (4 n r dep rest h)
  from "4.prems" obtain a1 r1 h1 as'
    where run1: "resolve n r dep h = Some (Inr a1, r1, h1)"
      and run2: "resolve_deps n r1 rest h1 = Some (Inr as', r'', h'')"
      and as: "as = a1 # as'"
    by (auto split: option.splits sum.splits)
  from "4.IH"(1) [OF run1] obtain e1 where e1: "h1 = h @ e1" "e1 \<noteq> []"
    "a1 = length h + length e1 - 1"
    "distinct (concat (map arguments e1))"
    "\<forall>x\<in>set (concat (map arguments e1)). length h \<le> x \<and> x < a1"
    by blast
  from "4.IH"(2) [OF run1 refl refl refl run2] obtain e2 where e2: "h'' = h1 @ e2"
    "distinct (concat (map arguments e2))"
    "\<forall>x\<in>set (concat (map arguments e2)). length h1 \<le> x \<and> x < length h1 + length e2"
    "distinct as'" "\<forall>x\<in>set as'. length h1 \<le> x \<and> x < length h1 + length e2"
    "set as' \<inter> set (concat (map arguments e2)) = {}"
    by blast
  have len: "length h1 = length h + length e1" "a1 < length h1" "length h \<le> a1"
    using e1(1,2,3) by (cases e1; simp)+
  have "h'' = h @ (e1 @ e2)" using e1(1) e2(1) by simp
  moreover have "distinct (concat (map arguments (e1 @ e2)))"
    using e1(4,5) e2(2,3) len by fastforce
  moreover have "\<forall>x\<in>set (concat (map arguments (e1 @ e2))).
      length h \<le> x \<and> x < length h + length (e1 @ e2)"
    using e1(5) e2(3) len by fastforce
  moreover have "distinct as" using as e2(4,5) len by fastforce
  moreover have "\<forall>x\<in>set as. length h \<le> x \<and> x < length h + length (e1 @ e2)"
    using as e2(5) len by fastforce
  moreover have "set as \<inter> set (concat (map arguments (e1 @ e2))) = {}"
  proof -
    have "a1 \<notin> set (concat (map arguments e1))" using e1(5) by blast
    moreover have "a1 \<notin> set (concat (map arguments e2))" using e2(3) len by fastforce
    moreover have "set as' \<inter> set (concat (map arguments e1)) = {}"
      using e2(5) e1(5) len by fastforce
    ultimately show ?thesis using as e2(6) by auto
  qed
  ultimately show ?case by blast
qed

lemma resolve_error:
  "resolve n r c h = Some (Inl e, r', h') \<Longrightarrow>
     \<exists>u. e = Error (not_registered u) \<and> map_of (providers r) u = None"
  "resolve_deps n r cs h = Some (Inl e, r'', h'') \<Longrightarrow>
     \<exists>u. e = Error (not_registered u) \<and> map_of (providers r) u = None"
proof (induction n r c h and n r cs h arbitrary: e r' h' and e r'' h''
    rule: resolve_resolve_deps.induct)
  case (1 r impl' h)
  then show ?case by simp
next
  case (2 n r impl' h)
  show ?case
  proof (cases "map_of (providers r) (name impl')")
    case None
    with "2.prems" show ?thesis by auto
  next
    case (Some p)
    with "2.prems" have "resolve_deps n r (deps p) h = Some (Inl e, r', h')"
      by (auto split: option.splits sum.splits)
    from "2.IH" [OF refl Some this] show ?thesis .
  qed
next
  case (3 n r h)
  then show ?case by simp
next
  case (4 n r dep rest h)
  from "4.prems" consider
      (first) "resolve n r dep h = Some (Inl e, r'', h'')"
    | (later) a1 r1 h1 where "resolve n r dep h = Some (Inr a1, r1, h1)"
        "resolve_deps n r1 rest h1 = Some (Inl e, r'', h'')"
    by (auto split: option.splits sum.splits)
  then show ?case
  proof cases
    case first
    from "4.IH"(1) [OF first] show ?thesis .
  next
    case later
    from resolve_frame(1) [OF later(1)] have "r1 = r" by simp
    with "4.IH"(2) [OF later(1) refl refl refl later(2)] show ?thesis by simp
  qed
qed


lemma resolve_wired:
  assumes "wired_within d (providers r) (name c)" and "d \<le> n"
  shows "\<exists>ext. resolve n r c h = Some (Inr (length h + length ext - 1), r, h @ ext) \<and> ext \<noteq> []"
proof -
  from assms(1) obtain w where "dependency_tree d (providers r) (name c) = Some w"
    by (auto simp: wired_within_tree)
  from resolve_builds(1) [OF this, of h] obtain ext
    where "resolve d r c h = Some (Inr (length h + length ext - 1), r, h @ ext)" "ext \<noteq> []"
    by blast
  with resolve_fuel [OF assms(2)] show ?thesis by blast
qed

lemma resolve_success_wired:
  "resolve n r c h = Some (Inr a, r', h') \<Longrightarrow> wired_within n (providers r) (name c)"
  by (auto simp: wired_within_tree dest: resolve_success_tree(1))

lemma resolve_deps_first_failure:
  assumes "list_all (\<lambda>x. wired_within d (providers r) (name x)) xs" and "d \<le> n"
    and "\<And>h1. \<exists>h2. resolve n r y h1 = Some (Inl e, r, h2)"
  shows "\<exists>h'. resolve_deps n r (xs @ y # zs) h = Some (Inl e, r, h')"
  using assms(1)
proof (induction xs arbitrary: h)
  case Nil
  from assms(3) [of h] show ?case by auto
next
  case (Cons x xs)
  from Cons.prems have "wired_within d (providers r) (name x)" by simp
  from resolve_wired [OF this assms(2), of h] obtain ext
    where run: "resolve n r x h = Some (Inr (length h + length ext - 1), r, h @ ext)"
    by blast
  from Cons.prems have "list_all (\<lambda>x. wired_within d (providers r) (name x)) xs" by simp
  from Cons.IH [OF this, of "h @ ext"] obtain h'
    where "resolve_deps n r (xs @ y # zs) (h @ ext) = Some (Inl e, r, h')" by blast
  with run show ?case by simp
qed

lemma resolve_encounters:
  "encounters d (providers r) (name c) path missing \<Longrightarrow> d + length path < n \<Longrightarrow>
     \<exists>h'. resolve n r c h = Some (Inl (Error (not_registered missing)), r, h')"
proof (induction path arbitrary: c n h)
  case Nil
  then obtain n' where "n = Suc n'" by (cases n) auto
  with Nil show ?case by auto
next
  case (Cons i path)
  from Cons.prems(2) obtain n' where n: "n = Suc n'" and n': "d + length path < n'"
    by (cases n) auto
  from Cons.prems(1) obtain p where p: "map_of (providers r) (name c) = Some p"
    and i: "i < length (deps p)"
    and before: "list_all (\<lambda>x. wired_within d (providers r) (name x)) (take i (deps p))"
    and rest: "encounters d (providers r) (name (deps p ! i)) path missing"
    by (auto split: option.splits)
  have fail: "\<exists>h2. resolve n' r (deps p ! i) h1 = Some (Inl (Error (not_registered missing)), r, h2)"
    for h1 using Cons.IH [OF rest n'] .
  have "d \<le> n'" using n' by simp
  from resolve_deps_first_failure [OF before this fail, of "drop (Suc i) (deps p)" h]
  obtain h' where "resolve_deps n' r (deps p) h = Some (Inl (Error (not_registered missing)), r, h')"
    using id_take_nth_drop [OF i] by auto
  with p n show ?case by simp
qed

lemma closed_deps:
  assumes "closed ps" and "map_of ps t = Some p" and "d \<in> set (deps p)"
  shows "map_of ps (name d) \<noteq> None"
proof -
  from assms(2) have "(t, p) \<in> set ps" by (rule map_of_SomeD)
  with assms(1,3) show ?thesis by (auto simp: closed_def list_all_iff)
qed

lemma resolve_closed:
  "closed (providers r) \<Longrightarrow> map_of (providers r) (name c) \<noteq> None \<Longrightarrow>
     resolve n r c h \<noteq> Some (Inl e, r', h')"
  "closed (providers r) \<Longrightarrow> \<forall>d\<in>set cs. map_of (providers r) (name d) \<noteq> None \<Longrightarrow>
     resolve_deps n r cs h \<noteq> Some (Inl e, r'', h'')"
proof (induction n r c h and n r cs h arbitrary: e r' h' and e r'' h''
    rule: resolve_resolve_deps.induct)
  case (1 r impl' h)
  then show ?case by simp
next
  case (2 n r impl' h)
  from "2.prems"(2) obtain p where p: "map_of (providers r) (name impl') = Some p" by auto
  have "\<forall>d\<in>set (deps p). map_of (providers r) (name d) \<noteq> None"
    using closed_deps [OF "2.prems"(1) p] by blast
  from "2.IH" [OF refl p "2.prems"(1) this] p show ?case
    by (auto split: option.splits sum.splits)
next
  case (3 n r h)
  then show ?case by simp
next
  case (4 n r dep rest h)
  show ?case
  proof
    assume "resolve_deps n r (dep # rest) h = Some (Inl e, r'', h'')"
    then consider
        (first) "resolve n r dep h = Some (Inl e, r'', h'')"
      | (later) a1 r1 h1 where "resolve n r dep h = Some (Inr a1, r1, h1)"
          "resolve_deps n r1 rest h1 = Some (Inl e, r'', h'')"
      by (auto split: option.splits sum.splits)
    then show False
    proof cases
      case first
      from "4.prems"(2) have "map_of (providers r) (name dep) \<noteq> None" by simp
      from "4.IH"(1) [OF "4.prems"(1) this] first show False by blast
    next
      case later
      from resolve_frame(1) [OF later(1)] have r1: "r1 = r" by simp
      from "4.IH"(2) [OF later(1) refl refl refl] "4.prems" r1 later(2) show False by simp
    qed
  qed
qed

lemma wired_within_step:
  assumes "wired_within n ps t" and "map_of ps t = Some p" and "u \<in> set (map name (deps p))"
  shows "\<exists>m<n. wired_within m ps u"
proof -
  from assms(1) obtain n' where n: "n = Suc n'" by (cases n) auto
  with assms have "wired_within n' ps u" by (auto simp: list_all_iff)
  with n show ?thesis by blast
qed

lemma wired_within_walk:
  "wired_within n ps t \<Longrightarrow> dependency_walk ps (t # w) \<Longrightarrow> v \<in> set w \<Longrightarrow>
     \<exists>m<n. wired_within m ps v"
proof (induction w arbitrary: t n)
  case Nil
  then show ?case by simp
next
  case (Cons u rest)
  from Cons.prems(2) obtain p where p: "map_of ps t = Some p"
    and u: "u \<in> set (map name (deps p))" and walk: "dependency_walk ps (u # rest)"
    by (auto split: option.splits)
  from wired_within_step [OF Cons.prems(1) p u] obtain m where m: "m < n" "wired_within m ps u"
    by blast
  show ?case
  proof (cases "v = u")
    case True
    with m show ?thesis by blast
  next
    case False
    with Cons.prems(3) have "v \<in> set rest" by simp
    from Cons.IH [OF m(2) walk this] m(1) show ?thesis by (meson less_trans)
  qed
qed

lemma wired_within_not_revisited:
  assumes "wired_within n ps t" and "dependency_walk ps (t # w)"
  shows "t \<notin> set w"
proof
  assume t: "t \<in> set w"
  define k where "k = (LEAST k. wired_within k ps t)"
  have least: "wired_within k ps t" unfolding k_def using assms(1) by (rule LeastI)
  from wired_within_walk [OF least assms(2) t] obtain m where "m < k" "wired_within m ps t"
    by blast
  then show False unfolding k_def by (meson not_less_Least)
qed

lemma wired_within_distinct:
  "wired_within n ps t \<Longrightarrow> dependency_walk ps (t # w) \<Longrightarrow> distinct (t # w)"
proof (induction w arbitrary: t n)
  case Nil
  then show ?case by simp
next
  case (Cons u rest)
  from Cons.prems(2) obtain p where p: "map_of ps t = Some p"
    and u: "u \<in> set (map name (deps p))" and walk: "dependency_walk ps (u # rest)"
    by (auto split: option.splits)
  from wired_within_step [OF Cons.prems(1) p u] obtain m where "wired_within m ps u" by blast
  from Cons.IH [OF this walk] have "distinct (u # rest)" .
  moreover from wired_within_not_revisited [OF Cons.prems] have "t \<notin> set (u # rest)" .
  ultimately show ?case by simp
qed

lemma getMetadata_None:
  "\<forall>t\<in>set (prototype_chain c). store key t = None \<Longrightarrow> getMetadata key c store = None"
  by (induction key c store rule: getMetadata.induct) (auto split: option.splits)

lemma getMetadata_own:
  "store key c = Some v \<Longrightarrow> getMetadata key c store = Some v"
  by (cases c) simp

lemma decorate_other:
  "t \<notin> fst ` set calls \<Longrightarrow> decorate calls store SCHEMA_METADATA_KEY t = store SCHEMA_METADATA_KEY t"
  by (induction calls store rule: decorate.induct) (auto simp: Schema_def defineMetadata_def)

section \<open>The dependency graph as walks\<close>

text \<open>
  \<open>wired_within\<close> says what "fully registered and acyclic" says: some bound \<open>n\<close> exists exactly
  when every dependency walk from the identity stays on registered identities and visits no
  identity twice.
\<close>

lemma wired_within_registered:
  "wired_within n ps t \<Longrightarrow> t \<in> fst ` set ps"
  by (cases n) (auto split: option.splits dest: map_of_SomeD intro: rev_image_eqI)

lemma dependency_walk_append:
  "dependency_walk ps (xs @ [t]) \<Longrightarrow> dependency_walk ps (t # ys) \<Longrightarrow>
     dependency_walk ps (xs @ t # ys)"
  by (induction ps xs rule: dependency_walk.induct) (auto split: option.splits)

lemma wired_within_acyclic:
  assumes "wired_within n ps t" and "dependency_walk ps (t # w)"
  shows "distinct (t # w) \<and> set (t # w) \<subseteq> fst ` set ps"
proof -
  have "v \<in> fst ` set ps" if "v \<in> set (t # w)" for v
  proof (cases "v = t")
    case True
    with assms(1) show ?thesis by (simp add: wired_within_registered)
  next
    case False
    with that have "v \<in> set w" by simp
    from wired_within_walk [OF assms this] show ?thesis
      by (auto dest: wired_within_registered)
  qed
  with wired_within_distinct [OF assms] show ?thesis by blast
qed

lemma acyclic_wired_within:
  assumes all: "\<And>w. dependency_walk ps (t # w) \<Longrightarrow>
      distinct (t # w) \<and> set (t # w) \<subseteq> fst ` set ps"
  shows "dependency_walk ps (t # w) \<Longrightarrow> length ps - length (t # w) = k \<Longrightarrow>
     wired_within (Suc k) ps (last (t # w))"
proof (induction k arbitrary: w)
  case 0
  let ?u = "last (t # w)"
  from all [OF "0.prems"(1)] have "?u \<in> fst ` set ps"
    by (meson last_in_set list.discI subsetD)
  then obtain p where p: "map_of ps ?u = Some p"
    by (metis map_of_eq_None_iff not_Some_eq)
  have "deps p = []"
  proof (rule ccontr)
    assume "deps p \<noteq> []"
    then obtain d where d: "d \<in> set (deps p)" by (cases "deps p") auto
    have step: "dependency_walk ps [?u, name d]" using p d by simp
    have "dependency_walk ps (butlast (t # w) @ ?u # [name d])"
      by (rule dependency_walk_append) (use "0.prems"(1) step in simp_all)
    then have walk: "dependency_walk ps (t # (w @ [name d]))"
      by (metis append_Cons append_assoc append_butlast_last_id list.discI append_Nil)
    from all [OF walk] have "distinct (t # w @ [name d])"
      "set (t # w @ [name d]) \<subseteq> fst ` set ps" by blast+
    then have "length (t # w @ [name d]) \<le> card (fst ` set ps)"
      by (metis card_mono distinct_card finite_imageI finite_set)
    also have "\<dots> \<le> length ps" by (metis card_image_le card_length finite_set le_trans)
    finally show False using "0.prems"(2) by simp
  qed
  with p show ?case by simp
next
  case (Suc k)
  let ?u = "last (t # w)"
  from all [OF Suc.prems(1)] have "?u \<in> fst ` set ps"
    by (meson last_in_set list.discI subsetD)
  then obtain p where p: "map_of ps ?u = Some p"
    by (metis map_of_eq_None_iff not_Some_eq)
  have "wired_within (Suc k) ps (name d)" if d: "d \<in> set (deps p)" for d
  proof -
    have step: "dependency_walk ps [?u, name d]" using p d by simp
    have "dependency_walk ps (butlast (t # w) @ ?u # [name d])"
      by (rule dependency_walk_append) (use Suc.prems(1) step in simp_all)
    then have walk: "dependency_walk ps (t # (w @ [name d]))"
      by (metis append_Cons append_assoc append_butlast_last_id list.discI append_Nil)
    have "length ps - length (t # (w @ [name d])) = k" using Suc.prems(2) by simp
    from Suc.IH [OF walk this] show ?thesis by simp
  qed
  with p show ?case by (simp add: list_all_iff)
qed

lemma wired_within_iff:
  "(\<exists>n. wired_within n ps t) \<longleftrightarrow>
   (\<forall>w. dependency_walk ps (t # w) \<longrightarrow> distinct (t # w) \<and> set (t # w) \<subseteq> fst ` set ps)"
proof
  assume "\<exists>n. wired_within n ps t"
  then show "\<forall>w. dependency_walk ps (t # w) \<longrightarrow>
      distinct (t # w) \<and> set (t # w) \<subseteq> fst ` set ps"
    using wired_within_acyclic by blast
next
  assume all: "\<forall>w. dependency_walk ps (t # w) \<longrightarrow>
      distinct (t # w) \<and> set (t # w) \<subseteq> fst ` set ps"
  have "dependency_walk ps (t # [])" by simp
  from acyclic_wired_within [OF _ this refl] all
  have "wired_within (Suc (length ps - length [t])) ps (last [t])" by blast
  moreover have "last [t] = t" by simp
  ultimately have "wired_within (Suc (length ps - length [t])) ps t" by (simp only:)
  then show "\<exists>n. wired_within n ps t" ..
qed

section \<open>More about resolve and register\<close>


lemma resolve_cycle:
  assumes "closed (providers r)" and "dependency_walk (providers r) (name c # w)"
    and "\<not> distinct (name c # w)"
  shows "resolve n r c h = None"
proof (cases "resolve n r c h")
  case None
  then show ?thesis .
next
  case (Some x)
  obtain res r' h' where x: "x = (res, r', h')" by (cases x)
  from assms(3) obtain u rest where w: "w = u # rest" by (cases w) auto
  with assms(2) have registered: "map_of (providers r) (name c) \<noteq> None"
    by (auto split: option.splits)
  show ?thesis
  proof (cases res)
    case (Inl e)
    with Some x resolve_closed(1) [OF assms(1) registered] show ?thesis by blast
  next
    case (Inr a)
    with Some x have "wired_within n (providers r) (name c)"
      by (auto dest: resolve_success_wired)
    from wired_within_distinct [OF this assms(2)] assms(3) show ?thesis by simp
  qed
qed

lemma update_absent:
  "map_of ps k = None \<Longrightarrow> AList.update k v ps = ps @ [(k, v)]"
  by (induction ps) (auto split: if_splits)

lemma register_cases:
  "register store c r =
     (if map_of (providers r) (name c) \<noteq> None
      then (Inl (Error (already_registered (name c))), r)
      else (Inr (),
            r\<lparr>providers := providers r @
               [(name c, \<lparr>impl = c,
                   deps = (case getMetadata ''design:paramtypes'' c store of
                             None \<Rightarrow> [] | Some ds \<Rightarrow> ds)\<rparr>)]\<rparr>))"
  by (auto simp: register_def Let_def update_absent)

lemma those_map_length:
  "those (map f xs) = Some ys \<Longrightarrow> length ys = length xs"
  by (induction xs arbitrary: ys) (auto split: option.splits)

lemma represents_all_length:
  "represents_all h as ws \<Longrightarrow> length as = length ws"
  by (induction as arbitrary: ws) (case_tac ws; simp)+

lemma resolve_builds_root:
  assumes "dependency_tree n (providers r) (name c) = Some w"
  shows "\<exists>ext p. resolve n r c h = Some (Inr (length h + length ext - 1), r, h @ ext) \<and>
     ext \<noteq> [] \<and> map_of (providers r) (name c) = Some p \<and>
     constructor ((h @ ext) ! (length h + length ext - 1)) = impl p \<and>
     length (arguments ((h @ ext) ! (length h + length ext - 1))) = length (deps p)"
proof -
  from assms obtain n' where n: "n = Suc n'" by (cases n) auto
  from assms n obtain p ws where p: "map_of (providers r) (name c) = Some p"
    and ws: "those (map (\<lambda>d. dependency_tree n' (providers r) (name d)) (deps p)) = Some ws"
    and w: "w = Wiring (impl p) ws"
    by (auto split: option.splits)
  from resolve_builds(1) [OF assms, of h] obtain ext
    where run: "resolve n r c h = Some (Inr (length h + length ext - 1), r, h @ ext)"
      and ne: "ext \<noteq> []"
      and rep: "represents (h @ ext) (length h + length ext - 1) w"
    by blast
  from rep w have "constructor ((h @ ext) ! (length h + length ext - 1)) = impl p"
    and "represents_all (h @ ext) (arguments ((h @ ext) ! (length h + length ext - 1))) ws"
    by simp_all
  moreover from this(2) have
    "length (arguments ((h @ ext) ! (length h + length ext - 1))) = length (deps p)"
    using those_map_length [OF ws] by (simp add: represents_all_length)
  ultimately show ?thesis using run ne p by blast
qed

lemma getSchema_super:
  assumes "store SCHEMA_METADATA_KEY (constructor target) = None"
    and "super (constructor target) = Some parent"
  shows "getSchema target store = getMetadata SCHEMA_METADATA_KEY parent store"
  using assms unfolding getSchema_def by (cases "constructor target") simp

section \<open>The claims about the registry\<close>

text \<open>
  The spec's \<^verbatim>\<open>DuplicateRegistration\<close> is the error \<open>Error (already_registered token)\<close> and
  its \<^verbatim>\<open>UnregisteredType\<close> the error \<open>Error (not_registered token)\<close>: each message quotes
  the token. The source has no third error.
\<close>



text \<open>
  C2. When the walk of \<^verbatim>\<open>resolve\<close> reaches an identity that has no component entry, at the
  root (empty path) or at any nesting depth, \<^verbatim>\<open>resolve\<close> fails with the not-registered error
  that names exactly that identity, and returns no instance.
\<close>

theorem resolve_unregistered:
  assumes "encounters d (providers r) (name c) path missing" and "d + length path < n"
  shows "\<exists>h'. resolve n r c h = Some (Inl (Error (not_registered missing)), r, h')"
  using assms by (rule resolve_encounters)

theorem resolve_unregistered_witness:
  "encounters 1 (providers broken_registry) (name class_Root) [1, 0, 0] ''Missing'' \<and>
   1 + length [1, 0, 0 :: nat] < (5 :: nat) \<and>
   encounters 0 (providers broken_registry) (name class_Missing) [] ''Missing'' \<and>
   0 + length ([] :: nat list) < (1 :: nat) \<and>
   (\<exists>h'. resolve 5 broken_registry class_Root [] =
      Some (Inl (Error (not_registered ''Missing'')), broken_registry, h')) \<and>
   (\<exists>h'. resolve 1 broken_registry class_Missing [] =
      Some (Inl (Error (not_registered ''Missing'')), broken_registry, h')) \<and>
   not_registered ''Missing'' = CHR 0x22 # ''Missing'' @ CHR 0x22 # '' is not registered.''"
proof -
  have deep: "encounters 1 (providers broken_registry) (name class_Root) [1, 0, 0] ''Missing''"
    by code_simp
  have root: "encounters 0 (providers broken_registry) (name class_Missing) [] ''Missing''"
    by code_simp
  have len: "1 + length [1, 0, 0 :: nat] < (5 :: nat)" "0 + length ([] :: nat list) < (1 :: nat)"
    by simp_all
  have msg: "not_registered ''Missing'' =
      CHR 0x22 # ''Missing'' @ CHR 0x22 # '' is not registered.''"
    by (simp add: not_registered_def)
  note run1 = resolve_unregistered [OF deep len(1), of "[]"]
  note run2 = resolve_unregistered [OF root len(2), of "[]"]
  from deep root len msg run1 run2 show ?thesis by blast
qed

text \<open>
  C3. When the identity of a constructor is already in the component table, \<^verbatim>\<open>register\<close>
  fails with the already-registered error for that identity, and the registry after the call
  is the registry before it: no entry is added, removed or modified.
\<close>

theorem register_duplicate:
  assumes "map_of (providers r) (name c) \<noteq> None"
  shows "register store c r = (Inl (Error (already_registered (name c))), r)"
  using assms by (simp add: register_def)

theorem register_duplicate_witness:
  "map_of (providers (snd (register paramtypes class_A empty_registry))) (name class_A) \<noteq> None \<and>
   register paramtypes class_A (snd (register paramtypes class_A empty_registry)) =
     (Inl (Error (already_registered (name class_A))),
      \<lparr>providers = [(''A'', \<lparr>impl = class_A, deps = [class_C]\<rparr>)]\<rparr>)"
proof -
  have first: "register paramtypes class_A empty_registry =
      (Inr (), \<lparr>providers = [(''A'', \<lparr>impl = class_A, deps = [class_C]\<rparr>)]\<rparr>)"
    by code_simp
  have present:
    "map_of (providers (snd (register paramtypes class_A empty_registry))) (name class_A) \<noteq> None"
    unfolding first by code_simp
  from register_duplicate [OF present, of paramtypes] present show ?thesis
    by (simp add: first)
qed

text \<open>
  C4 claims that on a dependency cycle \<^verbatim>\<open>resolve\<close> fails with an error that names the cycle.
  With \<^verbatim>\<open>A(B)\<close> and \<^verbatim>\<open>B(A)\<close> both registered, \<^verbatim>\<open>resolve(A)\<close> raises no error at all, whatever
  the depth of recursion it is allowed.
\<close>

theorem resolve_cycle_no_error:
  "\<not> (\<exists>n e r' h'. resolve n cyclic_registry class_A [] = Some (Inl e, r', h'))"
proof -
  have a: "closed (providers cyclic_registry)" by code_simp
  have b: "dependency_walk (providers cyclic_registry) (name class_A # [''B'', ''A''])"
    by code_simp
  have c: "\<not> distinct (name class_A # [''B'', ''A''])" by code_simp
  from resolve_cycle [OF a b c] show ?thesis by simp
qed

text \<open>
  C4, as the code has it. When a dependency walk from the requested identity visits some
  identity twice, \<^verbatim>\<open>resolve\<close> never returns an instance; the only error it can fail with is the
  not-registered error of an identity without an entry; and when every dependency that the
  table names is registered, it does not return at all within any depth of recursion: there is
  no cycle detection.
\<close>

theorem resolve_cycle_unbounded:
  assumes "dependency_walk (providers r) (name c # w)" and "\<not> distinct (name c # w)"
  shows "(\<forall>a r' h'. resolve n r c h \<noteq> Some (Inr a, r', h')) \<and>
    (\<forall>e r' h'. resolve n r c h = Some (Inl e, r', h') \<longrightarrow>
       (\<exists>u. e = Error (not_registered u) \<and> map_of (providers r) u = None)) \<and>
    (closed (providers r) \<longrightarrow> resolve n r c h = None)"
proof (intro conjI allI impI)
  fix a r' h'
  show "resolve n r c h \<noteq> Some (Inr a, r', h')"
  proof
    assume "resolve n r c h = Some (Inr a, r', h')"
    then have "wired_within n (providers r) (name c)" by (rule resolve_success_wired)
    from wired_within_distinct [OF this assms(1)] assms(2) show False by simp
  qed
next
  fix e r' h'
  assume "resolve n r c h = Some (Inl e, r', h')"
  then show "\<exists>u. e = Error (not_registered u) \<and> map_of (providers r) u = None"
    by (rule resolve_error(1))
next
  assume "closed (providers r)"
  then show "resolve n r c h = None" using assms by (rule resolve_cycle)
qed

theorem resolve_cycle_unbounded_witness:
  "dependency_walk (providers cyclic_registry) (name class_A # [''B'', ''A'']) \<and>
   \<not> distinct (name class_A # [''B'', ''A'']) \<and>
   closed (providers cyclic_registry) \<and>
   resolve 1000 cyclic_registry class_A [] = None"
proof -
  have a: "closed (providers cyclic_registry)" by code_simp
  have b: "dependency_walk (providers cyclic_registry) (name class_A # [''B'', ''A''])"
    by code_simp
  have c: "\<not> distinct (name class_A # [''B'', ''A''])" by code_simp
  from resolve_cycle_unbounded [OF b c, of 1000 "[]"] a
  have "resolve 1000 cyclic_registry class_A [] = None" by blast
  with a b c show ?thesis by blast
qed

text \<open>
  C5. Two consecutive successful \<^verbatim>\<open>resolve\<close> calls for the same identity return two different
  objects, the second allocated after everything the first call built; each call constructs
  the whole dependency tree again, one object for every occurrence of a class in the tree; no
  object is passed to two constructor calls, and every constructor argument is an object built
  by the same call. Overwriting the first instance leaves the second as it is.
\<close>

theorem resolve_no_reuse:
  assumes "resolve n r c h = Some (Inr a1, r1, h1)"
    and "resolve m r1 c h1 = Some (Inr a2, r2, h2)"
  shows "\<exists>e1 e2 w.
    h1 = h @ e1 \<and> h2 = h1 @ e2 \<and>
    a1 = length h1 - 1 \<and> a2 = length h2 - 1 \<and> a1 \<noteq> a2 \<and>
    length h \<le> a1 \<and> a1 < length h1 \<and> length h1 \<le> a2 \<and> a2 < length h2 \<and>
    dependency_tree n (providers r) (name c) = Some w \<and>
    map constructor e1 = postorder w \<and> map constructor e2 = postorder w \<and>
    no_reuse (length h) e1 \<and> no_reuse (length h1) e2 \<and>
    (\<forall>obj. (h2[a1 := obj]) ! a2 = h2 ! a2)"
proof -
  from resolve_frame(1) [OF assms(1)] have r1: "r1 = r" by simp
  from resolve_success_tree(1) [OF assms(1)] obtain w
    where w: "dependency_tree n (providers r) (name c) = Some w" by blast
  from resolve_success_tree(1) [OF assms(2)] r1 obtain w'
    where w': "dependency_tree m (providers r) (name c) = Some w'" by auto
  from dependency_tree_unique [OF w w'] have same: "w' = w" by simp
  from resolve_builds(1) [OF w, of h] assms(1) obtain e1
    where e1: "h1 = h @ e1" "e1 \<noteq> []" "a1 = length h + length e1 - 1"
      "map constructor e1 = postorder w"
    by auto
  from resolve_builds(1) [OF w' [unfolded same], of h1] assms(2) r1 obtain e2
    where e2: "h2 = h1 @ e2" "e2 \<noteq> []" "a2 = length h1 + length e2 - 1"
      "map constructor e2 = postorder w"
    by auto
  from resolve_fresh(1) [OF assms(1)] e1(1)
  have f1: "distinct (concat (map arguments e1))"
    "\<forall>x\<in>set (concat (map arguments e1)). length h \<le> x \<and> x < a1"
    by auto
  from resolve_fresh(1) [OF assms(2)] e2(1)
  have f2: "distinct (concat (map arguments e2))"
    "\<forall>x\<in>set (concat (map arguments e2)). length h1 \<le> x \<and> x < a2"
    by auto
  have pos: "length h \<le> a1" "a1 < length h1" "length h1 \<le> a2" "a2 < length h2"
    using e1(1,2,3) e2(1,2,3) by (auto simp: neq_Nil_conv)
  have "no_reuse (length h) e1"
    unfolding no_reuse_def list_all_iff using f1 pos e1(1) by fastforce
  moreover have "no_reuse (length h1) e2"
    unfolding no_reuse_def list_all_iff using f2 pos e2(1) by fastforce
  moreover have "a1 \<noteq> a2" using pos by simp
  moreover have "a1 = length h1 - 1" "a2 = length h2 - 1"
    using e1(1,3) e2(1,3) by simp_all
  ultimately show ?thesis using e1(1,4) e2(1,4) pos w by auto
qed

theorem resolve_no_reuse_witness:
  "resolve 3 shared_registry class_Root [] =
     Some (Inr 4, shared_registry,
       [\<lparr>constructor = class_C, arguments = []\<rparr>,
        \<lparr>constructor = class_A, arguments = [0]\<rparr>,
        \<lparr>constructor = class_C, arguments = []\<rparr>,
        \<lparr>constructor = class_B, arguments = [2]\<rparr>,
        \<lparr>constructor = class_Root, arguments = [1, 3]\<rparr>]) \<and>
   resolve 3 shared_registry class_Root
       [\<lparr>constructor = class_C, arguments = []\<rparr>,
        \<lparr>constructor = class_A, arguments = [0]\<rparr>,
        \<lparr>constructor = class_C, arguments = []\<rparr>,
        \<lparr>constructor = class_B, arguments = [2]\<rparr>,
        \<lparr>constructor = class_Root, arguments = [1, 3]\<rparr>] =
     Some (Inr 9, shared_registry,
       [\<lparr>constructor = class_C, arguments = []\<rparr>,
        \<lparr>constructor = class_A, arguments = [0]\<rparr>,
        \<lparr>constructor = class_C, arguments = []\<rparr>,
        \<lparr>constructor = class_B, arguments = [2]\<rparr>,
        \<lparr>constructor = class_Root, arguments = [1, 3]\<rparr>] @
       [\<lparr>constructor = class_C, arguments = []\<rparr>,
        \<lparr>constructor = class_A, arguments = [5]\<rparr>,
        \<lparr>constructor = class_C, arguments = []\<rparr>,
        \<lparr>constructor = class_B, arguments = [7]\<rparr>,
        \<lparr>constructor = class_Root, arguments = [6, 8]\<rparr>]) \<and>
   no_reuse 5
       [\<lparr>constructor = class_C, arguments = []\<rparr>,
        \<lparr>constructor = class_A, arguments = [5]\<rparr>,
        \<lparr>constructor = class_C, arguments = []\<rparr>,
        \<lparr>constructor = class_B, arguments = [7]\<rparr>,
        \<lparr>constructor = class_Root, arguments = [6, 8]\<rparr>]"
proof -
  let ?h1 = "[\<lparr>constructor = class_C, arguments = []\<rparr>,
        \<lparr>constructor = class_A, arguments = [0]\<rparr>,
        \<lparr>constructor = class_C, arguments = []\<rparr>,
        \<lparr>constructor = class_B, arguments = [2]\<rparr>,
        \<lparr>constructor = class_Root, arguments = [1, 3]\<rparr>]"
  let ?e2 = "[\<lparr>constructor = class_C, arguments = []\<rparr>,
        \<lparr>constructor = class_A, arguments = [5]\<rparr>,
        \<lparr>constructor = class_C, arguments = []\<rparr>,
        \<lparr>constructor = class_B, arguments = [7]\<rparr>,
        \<lparr>constructor = class_Root, arguments = [6, 8]\<rparr>]"
  have run1: "resolve 3 shared_registry class_Root [] = Some (Inr 4, shared_registry, ?h1)"
    by code_simp
  have run2: "resolve 3 shared_registry class_Root ?h1 =
      Some (Inr 9, shared_registry, ?h1 @ ?e2)"
    by code_simp
  have len: "length ?h1 = 5" by simp
  from resolve_no_reuse [OF run1 run2] obtain e2
    where eq: "?h1 @ ?e2 = ?h1 @ e2" and fresh: "no_reuse (length ?h1) e2"
    by blast
  from eq have "e2 = ?e2" by simp
  with fresh [unfolded len] have "no_reuse 5 ?e2" by blast
  with run1 run2 show ?thesis by blast
qed

text \<open>
  C6. Whatever \<^verbatim>\<open>resolve\<close> returns, an instance or an error, the registry after the call is the
  registry before it. \<^verbatim>\<open>register\<close> keeps every entry that was there; when it fails the registry
  is unchanged, and when it succeeds the identity was absent and the table is the old table
  with one entry for that identity appended.
\<close>

theorem registry_frame:
  "(resolve n r c h = Some (res, r', h') \<longrightarrow> r' = r) \<and>
   (register store c r = (out, r'') \<longrightarrow>
      (\<forall>token p. map_of (providers r) token = Some p \<longrightarrow>
         map_of (providers r'') token = Some p) \<and>
      (out \<noteq> Inr () \<longrightarrow> r'' = r) \<and>
      (out = Inr () \<longrightarrow>
         map_of (providers r) (name c) = None \<and>
         (\<exists>p. impl p = c \<and> providers r'' = providers r @ [(name c, p)])))"
proof (intro conjI impI)
  assume "resolve n r c h = Some (res, r', h')"
  then show "r' = r" by (simp add: resolve_frame(1))
next
  assume reg: "register store c r = (out, r'')"
  show "\<forall>token p. map_of (providers r) token = Some p \<longrightarrow>
         map_of (providers r'') token = Some p"
    using reg by (auto simp: register_cases map_add_def split: if_splits)
next
  assume "register store c r = (out, r'')" and "out \<noteq> Inr ()"
  then show "r'' = r" by (auto simp: register_cases split: if_splits)
next
  assume "register store c r = (out, r'')" and "out = Inr ()"
  then show "map_of (providers r) (name c) = None"
    by (auto simp: register_cases split: if_splits)
next
  assume "register store c r = (out, r'')" and "out = Inr ()"
  then show "\<exists>p. impl p = c \<and> providers r'' = providers r @ [(name c, p)]"
    by (auto simp: register_cases split: if_splits)
qed

theorem registry_frame_witness:
  "resolve 3 wired_registry class_Root [] =
     Some (Inr 3, wired_registry,
       [\<lparr>constructor = class_C, arguments = []\<rparr>,
        \<lparr>constructor = class_A, arguments = [0]\<rparr>,
        \<lparr>constructor = class_B, arguments = []\<rparr>,
        \<lparr>constructor = class_Root, arguments = [1, 2]\<rparr>]) \<and>
   resolve 1 wired_registry class_Missing [] =
     Some (Inl (Error (not_registered ''Missing'')), wired_registry, []) \<and>
   register paramtypes class_Missing wired_registry =
     (Inr (), \<lparr>providers = providers wired_registry @
        [(''Missing'', \<lparr>impl = class_Missing, deps = []\<rparr>)]\<rparr>) \<and>
   map_of (providers wired_registry) ''A'' = Some \<lparr>impl = class_A, deps = [class_C]\<rparr> \<and>
   map_of (providers (snd (register paramtypes class_Missing wired_registry))) ''A'' =
     Some \<lparr>impl = class_A, deps = [class_C]\<rparr> \<and>
   register paramtypes class_A wired_registry =
     (Inl (Error (already_registered ''A'')), wired_registry)"
proof -
  have run: "resolve 3 wired_registry class_Root [] =
     Some (Inr 3, wired_registry,
       [\<lparr>constructor = class_C, arguments = []\<rparr>,
        \<lparr>constructor = class_A, arguments = [0]\<rparr>,
        \<lparr>constructor = class_B, arguments = []\<rparr>,
        \<lparr>constructor = class_Root, arguments = [1, 2]\<rparr>])"
    by code_simp
  have fail: "resolve 1 wired_registry class_Missing [] =
     Some (Inl (Error (not_registered ''Missing'')), wired_registry, [])"
    by code_simp
  have new: "register paramtypes class_Missing wired_registry =
     (Inr (), \<lparr>providers = providers wired_registry @
        [(''Missing'', \<lparr>impl = class_Missing, deps = []\<rparr>)]\<rparr>)"
    by code_simp
  have dup: "register paramtypes class_A wired_registry =
     (Inl (Error (already_registered ''A'')), wired_registry)"
    by code_simp
  have before: "map_of (providers wired_registry) ''A'' = Some \<lparr>impl = class_A, deps = [class_C]\<rparr>"
    by code_simp
  from registry_frame [of 1 wired_registry class_Missing "[]" _ _ _ paramtypes
      "Inr ()" "snd (register paramtypes class_Missing wired_registry)"] new before
  have after: "map_of (providers (snd (register paramtypes class_Missing wired_registry))) ''A'' =
     Some \<lparr>impl = class_A, deps = [class_C]\<rparr>"
    by simp
  from run fail new dup before after show ?thesis by blast
qed

text \<open>
  C7. When the dependency graph below the requested identity is fully registered and every
  dependency chain in it has at most \<open>d\<close> identities, \<^verbatim>\<open>resolve\<close> returns as soon as it is
  allowed \<open>d\<close> nested calls, and with any larger allowance it returns the same: the recursion is
  bounded by the depth of the graph. What it returns is an instance: the address of an object
  on the heap, the last one allocated, built by the constructor registered for the identity
  with one argument for each declared dependency.
\<close>

theorem resolve_terminates:
  assumes "wired_within d (providers r) (name c)" and "d \<le> n"
  shows "\<exists>a ext p.
    resolve n r c h = Some (Inr a, r, h @ ext) \<and>
    resolve n r c h = resolve d r c h \<and>
    ext \<noteq> [] \<and> a = length h + length ext - 1 \<and> a < length (h @ ext) \<and>
    map_of (providers r) (name c) = Some p \<and>
    constructor ((h @ ext) ! a) = impl p \<and>
    length (arguments ((h @ ext) ! a)) = length (deps p)"
proof -
  from assms(1) obtain w where "dependency_tree d (providers r) (name c) = Some w"
    by (auto simp: wired_within_tree)
  from resolve_builds_root [OF this, of h] obtain ext p
    where run: "resolve d r c h = Some (Inr (length h + length ext - 1), r, h @ ext)"
      and rest: "ext \<noteq> []" "map_of (providers r) (name c) = Some p"
        "constructor ((h @ ext) ! (length h + length ext - 1)) = impl p"
        "length (arguments ((h @ ext) ! (length h + length ext - 1))) = length (deps p)"
    by blast
  from resolve_fuel [OF assms(2) run]
  have "resolve n r c h = Some (Inr (length h + length ext - 1), r, h @ ext)" .
  moreover from rest(1) have "length h + length ext - 1 < length (h @ ext)"
    by (cases ext) simp_all
  ultimately show ?thesis using run rest by auto
qed

theorem resolve_terminates_witness:
  "wired_within 3 (providers wired_registry) (name class_Root) \<and> (3 :: nat) \<le> 7 \<and>
   resolve 7 wired_registry class_Root [] =
     Some (Inr 3, wired_registry,
       [\<lparr>constructor = class_C, arguments = []\<rparr>,
        \<lparr>constructor = class_A, arguments = [0]\<rparr>,
        \<lparr>constructor = class_B, arguments = []\<rparr>,
        \<lparr>constructor = class_Root, arguments = [1, 2]\<rparr>]) \<and>
   (\<exists>a ext p.
      resolve 7 wired_registry class_Root [] = Some (Inr a, wired_registry, ext) \<and>
      resolve 7 wired_registry class_Root [] = resolve 3 wired_registry class_Root [] \<and>
      a < length ext \<and>
      map_of (providers wired_registry) (name class_Root) = Some p \<and>
      constructor (ext ! a) = impl p \<and>
      length (arguments (ext ! a)) = length (deps p))"
proof -
  have w: "wired_within 3 (providers wired_registry) (name class_Root)" by code_simp
  have le: "(3 :: nat) \<le> 7" by simp
  have run: "resolve 7 wired_registry class_Root [] =
     Some (Inr 3, wired_registry,
       [\<lparr>constructor = class_C, arguments = []\<rparr>,
        \<lparr>constructor = class_A, arguments = [0]\<rparr>,
        \<lparr>constructor = class_B, arguments = []\<rparr>,
        \<lparr>constructor = class_Root, arguments = [1, 2]\<rparr>])"
    by code_simp
  from resolve_terminates [OF w le, of "[]"]
  have "\<exists>a ext p.
      resolve 7 wired_registry class_Root [] = Some (Inr a, wired_registry, ext) \<and>
      resolve 7 wired_registry class_Root [] = resolve 3 wired_registry class_Root [] \<and>
      a < length ext \<and>
      map_of (providers wired_registry) (name class_Root) = Some p \<and>
      constructor (ext ! a) = impl p \<and>
      length (arguments (ext ! a)) = length (deps p)"
    by (simp del: resolve.simps) blast
  with w le run show ?thesis by blast
qed




section \<open>The claims about the schema annotation\<close>

text \<open>
  C8. After \<^verbatim>\<open>Schema(v1)\<close> and then \<^verbatim>\<open>Schema(v2)\<close> have decorated the same class, \<^verbatim>\<open>getSchema\<close>
  on an instance of that class returns \<open>v2\<close>: the last write wins.
\<close>

theorem Schema_last_write_wins:
  "getSchema target (Schema v2 (constructor target) (Schema v1 (constructor target) store))
     = Some v2"
  by (simp add: getSchema_def Schema_def defineMetadata_def getMetadata_own)

text \<open>
  C9 claims that \<^verbatim>\<open>getSchema\<close> returns \<^verbatim>\<open>undefined\<close> for every class that was never decorated.
  The class \<^verbatim>\<open>Child\<close> was never decorated, but it extends \<^verbatim>\<open>Parent\<close>, which was, and
  \<^verbatim>\<open>Reflect.getMetadata\<close> follows the prototype chain: an instance of \<^verbatim>\<open>Child\<close> gets the schema
  of \<^verbatim>\<open>Parent\<close>.
\<close>

theorem getSchema_inherited:
  "class_Child \<notin> fst ` set [(class_Parent, 7 :: nat)] \<and>
   getSchema \<lparr>constructor = class_Child, arguments = []\<rparr>
     (decorate [(class_Parent, 7 :: nat)] no_metadata) = Some 7"
  by (simp add: class_Child_def class_Parent_def getSchema_def Schema_def defineMetadata_def
      no_metadata_def)

text \<open>
  C9, as the code has it. When neither the class of the target nor any class it extends was
  ever decorated with \<^verbatim>\<open>Schema\<close>, \<^verbatim>\<open>getSchema\<close> returns \<^verbatim>\<open>undefined\<close> (\<open>None\<close>): no default value
  and no error. A class that was never decorated and extends another class gets what that
  class gets; in particular, once the parent is decorated with \<open>v\<close>, the undecorated child
  gets \<open>v\<close>. Every call of \<^verbatim>\<open>getSchema\<close> leaves the store as it was.
\<close>

theorem getSchema_absent:
  "(set (prototype_chain (constructor target)) \<inter> fst ` set calls = {} \<longrightarrow>
      lookup target (decorate calls no_metadata) = (None, decorate calls no_metadata)) \<and>
   (constructor target \<notin> fst ` set calls \<and> super (constructor target) = Some parent \<longrightarrow>
      getSchema target (decorate calls no_metadata) =
        getSchema \<lparr>constructor = parent, arguments = args\<rparr> (decorate calls no_metadata) \<and>
      (constructor target \<noteq> parent \<longrightarrow>
         getSchema target (Schema v parent (decorate calls no_metadata)) = Some v)) \<and>
   snd (lookup target store) = store \<and>
   fst (lookup target store) = getSchema target store"
proof (intro conjI impI)
  assume disjoint: "set (prototype_chain (constructor target)) \<inter> fst ` set calls = {}"
  have "decorate calls no_metadata SCHEMA_METADATA_KEY t = None"
    if "t \<in> set (prototype_chain (constructor target))" for t
  proof -
    from that disjoint have "t \<notin> fst ` set calls" by blast
    from decorate_other [OF this, of no_metadata] show ?thesis
      by (simp add: no_metadata_def)
  qed
  then have "getSchema target (decorate calls no_metadata) = None"
    unfolding getSchema_def by (intro getMetadata_None ballI)
  then show "lookup target (decorate calls no_metadata) = (None, decorate calls no_metadata)"
    by (simp add: lookup_def)
next
  assume a: "constructor target \<notin> fst ` set calls \<and> super (constructor target) = Some parent"
  then have own: "decorate calls no_metadata SCHEMA_METADATA_KEY (constructor target) = None"
    using decorate_other [of "constructor target" calls no_metadata]
    by (simp add: no_metadata_def)
  from getSchema_super [of "decorate calls no_metadata" target parent, OF own] a
  show "getSchema target (decorate calls no_metadata) =
        getSchema \<lparr>constructor = parent, arguments = args\<rparr> (decorate calls no_metadata)"
    by (simp add: getSchema_def)
  assume ne: "constructor target \<noteq> parent"
  let ?s = "Schema v parent (decorate calls no_metadata)"
  have "?s SCHEMA_METADATA_KEY (constructor target) = None"
    using own ne by (simp add: Schema_def defineMetadata_def)
  moreover have "?s SCHEMA_METADATA_KEY parent = Some v"
    by (simp add: Schema_def defineMetadata_def)
  ultimately show "getSchema target ?s = Some v"
    using a getSchema_super [of ?s target parent] by (simp add: getMetadata_own)
qed (simp_all add: lookup_def)

theorem getSchema_absent_witness:
  "set (prototype_chain (constructor \<lparr>constructor = class_Child, arguments = []\<rparr>)) \<inter>
     fst ` set [(class_A, 1 :: nat), (class_B, 2)] = {} \<and>
   lookup \<lparr>constructor = class_Child, arguments = []\<rparr>
     (decorate [(class_A, 1 :: nat), (class_B, 2)] no_metadata) =
     (None, decorate [(class_A, 1 :: nat), (class_B, 2)] no_metadata) \<and>
   constructor \<lparr>constructor = class_Child, arguments = []\<rparr> \<notin>
     fst ` set [(class_A, 1 :: nat), (class_B, 2)] \<and>
   super (constructor \<lparr>constructor = class_Child, arguments = []\<rparr>) = Some class_Parent \<and>
   constructor \<lparr>constructor = class_Child, arguments = []\<rparr> \<noteq> class_Parent \<and>
   getSchema \<lparr>constructor = class_Child, arguments = []\<rparr>
     (Schema 7 class_Parent (decorate [(class_A, 1 :: nat), (class_B, 2)] no_metadata)) = Some 7"
proof -
  let ?t = "\<lparr>constructor = class_Child, arguments = []\<rparr>"
  let ?calls = "[(class_A, 1 :: nat), (class_B, 2)]"
  have a: "set (prototype_chain (constructor ?t)) \<inter> fst ` set ?calls = {}"
    by (simp add: class_Child_def class_Parent_def class_A_def class_B_def)
  have b: "constructor ?t \<notin> fst ` set ?calls"
    by (simp add: class_Child_def class_Parent_def class_A_def class_B_def)
  have c: "super (constructor ?t) = Some class_Parent"
    by (simp add: class_Child_def)
  have d: "constructor ?t \<noteq> class_Parent"
    by (simp add: class_Child_def class_Parent_def)
  note inst = getSchema_absent [of ?t ?calls class_Parent "[]" 7 no_metadata]
  from inst a have 1: "lookup ?t (decorate ?calls no_metadata) = (None, decorate ?calls no_metadata)"
    by blast
  from inst b c d have 2: "getSchema ?t (Schema 7 class_Parent (decorate ?calls no_metadata)) = Some 7"
    by blast
  from a b c d 1 2 show ?thesis by blast
qed

end
